theory Spec2Isabelle
  imports Complex_Main "HOL-Library.Log_Nat"
begin

section \<open>Python values and errors\<close>

text \<open>
  The functions of \<^verbatim>\<open>utils.py\<close> receive dynamically typed arguments. The values that
  matter are strings, integers (unbounded), floats (IEEE binary64) and \<^verbatim>\<open>None\<close>.
  A Python \<^verbatim>\<open>bool\<close> is an \<^verbatim>\<open>int\<close> (0 or 1) and is covered by \<open>PInt\<close>.
  Strings are lists of 8-bit characters, read as Latin-1 code points.

  A float is a finite rational, an infinity or NaN. The sign of a zero is not kept: no
  result of the functions below depends on it.
\<close>

datatype pyfloat = Fin rat | PInf | NInf | NaN

datatype pyval = PStr string | PInt int | PFloat pyfloat | PNone

datatype pyerr = TypeError | ValueError | OverflowError | FileNotFoundError | PermissionError

section \<open>Binary64 arithmetic\<close>

text \<open>
  \<open>ilog2 q\<close> is the binary exponent of a non-zero rational: the integer \<open>e\<close> with
  \<open>2^e \<le> |q| < 2^(e+1)\<close>. The difference of the bit lengths of numerator and
  denominator is \<open>e\<close> or \<open>e + 1\<close>.
\<close>

definition ilog2 :: "rat \<Rightarrow> int" where
  "ilog2 q = (let (a, b) = quotient_of \<bar>q\<bar>; d = bitlen a - bitlen b
              in if 2 powi d \<le> \<bar>q\<bar> then d else d - 1)"

text \<open>
  The exponent of the unit in the last place of the binary64 format at \<open>q\<close>: 53
  significant bits for normal numbers, the fixed spacing \<open>2^-1074\<close> below \<open>2^-1022\<close>.
\<close>

definition ulp_exp :: "rat \<Rightarrow> int" where
  "ulp_exp q = max (ilog2 q) (- 1022) - 52"

text \<open>Rounding to the nearest integer, ties to the even one.\<close>

definition round_half_even :: "rat \<Rightarrow> int" where
  "round_half_even x =
     (let f = \<lfloor>x\<rfloor>; d = x - of_int f
      in if d < 1 / 2 then f
         else if 1 / 2 < d then f + 1
         else if even f then f else f + 1)"

text \<open>
  \<open>rnd64 q\<close> is the multiple of the unit in the last place nearest to \<open>q\<close> (ties to
  even): the value every correctly rounded binary64 operation returns for the exact
  result \<open>q\<close>, as long as it is in range. \<open>to_double\<close> adds the overflow to an infinity,
  when the rounded value reaches \<open>2^1024\<close>.
\<close>

definition rnd64 :: "rat \<Rightarrow> rat" where
  "rnd64 q =
     (if q = 0 then 0
      else of_int (round_half_even (q / 2 powi ulp_exp q)) * 2 powi ulp_exp q)"

definition to_double :: "rat \<Rightarrow> pyfloat" where
  "to_double q =
     (let r = rnd64 q
      in if r \<noteq> 0 \<and> 1024 \<le> ilog2 r then (if 0 < r then PInf else NInf)
         else Fin r)"

text \<open>A rational is a (finite) binary64 value when rounding leaves it alone.\<close>

definition is_double :: "rat \<Rightarrow> bool" where
  "is_double q \<longleftrightarrow> to_double q = Fin q"

text \<open>
  Multiplication and division of a float by a positive finite constant
  (\<^verbatim>\<open>25 * frac\<close>, \<^verbatim>\<open>x / 100.0\<close>, \<^verbatim>\<open>days / 365.25\<close>): infinities and NaN are kept, an
  overflow gives an infinity, never an exception.
\<close>

fun float_mul :: "rat \<Rightarrow> pyfloat \<Rightarrow> pyfloat" where
  "float_mul c (Fin q) = to_double (c * q)"
| "float_mul c x = x"

fun float_div :: "pyfloat \<Rightarrow> rat \<Rightarrow> pyfloat" where
  "float_div (Fin q) c = to_double (q / c)"
| "float_div x c = x"

section \<open>The builtins \<^verbatim>\<open>float\<close> and \<open>round\<close>\<close>

subsection \<open>Float literals in strings\<close>

definition is_space :: "char \<Rightarrow> bool" where
  "is_space c \<longleftrightarrow> of_char c \<in> {9, 10, 11, 12, 13, 32, 133, 160 :: nat}"

definition is_digit :: "char \<Rightarrow> bool" where
  "is_digit c \<longleftrightarrow> 48 \<le> (of_char c :: nat) \<and> (of_char c :: nat) \<le> 57"

definition digit_val :: "char \<Rightarrow> nat" where
  "digit_val c = of_char c - 48"

definition lower :: "char \<Rightarrow> char" where
  "lower c = (if 65 \<le> (of_char c :: nat) \<and> (of_char c :: nat) \<le> 90
              then char_of (of_char c + 32 :: nat) else c)"

text \<open>\<^verbatim>\<open>s.strip(chars)\<close>: drop the characters on both ends.\<close>

definition strip :: "(char \<Rightarrow> bool) \<Rightarrow> string \<Rightarrow> string" where
  "strip P s = rev (dropWhile P (rev (dropWhile P s)))"

definition endswith :: "string \<Rightarrow> string \<Rightarrow> bool" where
  "endswith s suffix \<longleftrightarrow> length suffix \<le> length s \<and> drop (length s - length suffix) s = suffix"

text \<open>
  A digit part is \<^verbatim>\<open>digit (["_"] digit)*\<close>; \<open>digits_from\<close> reads what follows a digit
  and returns the digits without the underscores.
\<close>

fun digits_from :: "string \<Rightarrow> string option" where
  "digits_from [] = Some []"
| "digits_from (c # cs) =
     (if is_digit c then map_option ((#) c) (digits_from cs)
      else if c = CHR ''_'' then
        (case cs of
           [] \<Rightarrow> None
         | d # ds \<Rightarrow> if is_digit d then map_option ((#) d) (digits_from ds) else None)
      else None)"

definition digitpart :: "string \<Rightarrow> string option" where
  "digitpart s =
     (case s of
        [] \<Rightarrow> None
      | c # cs \<Rightarrow> if is_digit c then map_option ((#) c) (digits_from cs) else None)"

definition nat_of_digits :: "string \<Rightarrow> nat" where
  "nat_of_digits ds = foldl (\<lambda>n c. 10 * n + digit_val c) 0 ds"

text \<open>\<^verbatim>\<open>[digitpart] "." digitpart | digitpart ["."]\<close>\<close>

definition mantissa :: "string \<Rightarrow> rat option" where
  "mantissa s =
     (let ip = takeWhile (\<lambda>c. c \<noteq> CHR ''.'') s; rest = dropWhile (\<lambda>c. c \<noteq> CHR ''.'') s
      in case rest of
           [] \<Rightarrow> map_option (\<lambda>ds. of_nat (nat_of_digits ds)) (digitpart ip)
         | _ # fp \<Rightarrow>
             if fp = [] then map_option (\<lambda>ds. of_nat (nat_of_digits ds)) (digitpart ip)
             else
               (case digitpart fp of
                  None \<Rightarrow> None
                | Some fs \<Rightarrow>
                    if ip = [] then Some (of_nat (nat_of_digits fs) / 10 ^ length fs)
                    else map_option
                           (\<lambda>ds. of_nat (nat_of_digits ds) + of_nat (nat_of_digits fs) / 10 ^ length fs)
                           (digitpart ip)))"

text \<open>\<^verbatim>\<open>("e" | "E") [sign] digitpart\<close>, as the power of ten it denotes.\<close>

definition exponent :: "string \<Rightarrow> int option" where
  "exponent s =
     (case s of
        [] \<Rightarrow> None
      | c # cs \<Rightarrow>
          if c = CHR ''-'' then map_option (\<lambda>ds. - int (nat_of_digits ds)) (digitpart cs)
          else if c = CHR ''+'' then map_option (\<lambda>ds. int (nat_of_digits ds)) (digitpart cs)
          else map_option (\<lambda>ds. int (nat_of_digits ds)) (digitpart s))"

definition float_literal :: "string \<Rightarrow> rat option" where
  "float_literal s =
     (let m = takeWhile (\<lambda>c. c \<noteq> CHR ''e'' \<and> c \<noteq> CHR ''E'') s;
          rest = dropWhile (\<lambda>c. c \<noteq> CHR ''e'' \<and> c \<noteq> CHR ''E'') s
      in case rest of
           [] \<Rightarrow> mantissa m
         | _ # ex \<Rightarrow>
             (case mantissa m of
                None \<Rightarrow> None
              | Some q \<Rightarrow> map_option (\<lambda>k. q * 10 powi k) (exponent ex)))"

text \<open>
  \<^verbatim>\<open>float(s)\<close> for a string: surrounding whitespace is dropped, then an optional sign
  and \<^verbatim>\<open>inf\<close>, \<^verbatim>\<open>infinity\<close>, \<^verbatim>\<open>nan\<close> (in any case) or a float literal; the value is
  correctly rounded, and a literal too large is an infinity. Anything else raises
  \<^verbatim>\<open>ValueError\<close>.
\<close>

definition float_of_str :: "string \<Rightarrow> pyerr + pyfloat" where
  "float_of_str s =
     (let t = strip is_space s;
          neg = (t \<noteq> [] \<and> hd t = CHR ''-'');
          u = (if t \<noteq> [] \<and> (hd t = CHR ''-'' \<or> hd t = CHR ''+'') then tl t else t);
          l = map lower u
      in if l = ''inf'' \<or> l = ''infinity'' then Inr (if neg then NInf else PInf)
         else if l = ''nan'' then Inr NaN
         else
           (case float_literal u of
              None \<Rightarrow> Inl ValueError
            | Some q \<Rightarrow> Inr (to_double (if neg then - q else q))))"

subsection \<open>\<^verbatim>\<open>float(x)\<close> and \<^verbatim>\<open>round(x)\<close>\<close>

text \<open>
  An integer is rounded to the nearest float; one too large raises \<^verbatim>\<open>OverflowError\<close>.
  A float is returned as it is, and \<^verbatim>\<open>None\<close> raises \<^verbatim>\<open>TypeError\<close>.
\<close>

definition float_of_int :: "int \<Rightarrow> pyerr + pyfloat" where
  "float_of_int n =
     (case to_double (of_int n) of
        Fin r \<Rightarrow> Inr (Fin r)
      | _ \<Rightarrow> Inl OverflowError)"

fun py_float :: "pyval \<Rightarrow> pyerr + pyfloat" where
  "py_float (PStr s) = float_of_str s"
| "py_float (PInt n) = float_of_int n"
| "py_float (PFloat x) = Inr x"
| "py_float PNone = Inl TypeError"

text \<open>
  \<^verbatim>\<open>round(x)\<close> with one argument returns an integer, ties to even; it raises
  \<^verbatim>\<open>OverflowError\<close> on an infinity and \<^verbatim>\<open>ValueError\<close> on NaN.
\<close>

fun py_round :: "pyfloat \<Rightarrow> pyerr + int" where
  "py_round (Fin q) = Inr (round_half_even q)"
| "py_round NaN = Inl ValueError"
| "py_round PInf = Inl OverflowError"
| "py_round NInf = Inl OverflowError"

section \<open>\<^verbatim>\<open>compute_vacation_total\<close>\<close>

text \<open>\<^verbatim>\<open>isinstance(v, str) and v.endswith("%")\<close>\<close>

fun is_pct_str :: "pyval \<Rightarrow> bool" where
  "is_pct_str (PStr s) = endswith s ''%''"
| "is_pct_str _ = False"

text \<open>\<^verbatim>\<open>isinstance(v, (int, float)) and v > 1\<close>; a comparison with NaN is false.\<close>

fun is_num_gt_one :: "pyval \<Rightarrow> bool" where
  "is_num_gt_one (PInt n) = (1 < n)"
| "is_num_gt_one (PFloat (Fin q)) = (1 < q)"
| "is_num_gt_one (PFloat PInf) = True"
| "is_num_gt_one _ = False"

text \<open>\<^verbatim>\<open>v.strip("%")\<close> on a string.\<close>

fun strip_pct :: "pyval \<Rightarrow> pyval" where
  "strip_pct (PStr s) = PStr (strip (\<lambda>c. c = CHR ''%'') s)"
| "strip_pct v = v"

text \<open>
  The three branches normalise the argument to a fraction; the result is
  \<^verbatim>\<open>int(round(25 * frac))\<close>. An exception of \<^verbatim>\<open>float\<close> or \<^verbatim>\<open>round\<close> leaves the function.
\<close>

definition workload_frac :: "pyval \<Rightarrow> pyerr + pyfloat" where
  "workload_frac workload_pct =
     (if is_pct_str workload_pct then
        map_sum id (\<lambda>x. float_div x 100) (py_float (strip_pct workload_pct))
      else if is_num_gt_one workload_pct then
        map_sum id (\<lambda>x. float_div x 100) (py_float workload_pct)
      else py_float workload_pct)"

definition compute_vacation_total :: "pyval \<Rightarrow> pyerr + int" where
  "compute_vacation_total workload_pct =
     (case workload_frac workload_pct of
        Inl e \<Rightarrow> Inl e
      | Inr fr \<Rightarrow> py_round (float_mul 25 fr))"

section \<open>\<^verbatim>\<open>infer_seniority\<close>\<close>

text \<open>
  Comparisons of a float with a constant (\<^verbatim>\<open>x < c\<close>, \<^verbatim>\<open>x >= c\<close>); both are false on
  NaN.
\<close>

fun float_lt :: "pyfloat \<Rightarrow> rat \<Rightarrow> bool" where
  "float_lt (Fin q) c = (q < c)"
| "float_lt NInf c = True"
| "float_lt PInf c = False"
| "float_lt NaN c = False"

fun float_ge :: "pyfloat \<Rightarrow> rat \<Rightarrow> bool" where
  "float_ge (Fin q) c = (c \<le> q)"
| "float_ge PInf c = True"
| "float_ge NInf c = False"
| "float_ge NaN c = False"

text \<open>
  \<^verbatim>\<open>pandas.to_datetime\<close> belongs to a library: it is a parameter \<open>to_datetime\<close>. On a
  scalar it raises, or returns the missing value \<^verbatim>\<open>NaT\<close> (for an empty text, \<^verbatim>\<open>NaT\<close> or
  NaN), or a timestamp, a number of nanoseconds since the epoch, without or with a
  time zone. \<open>today\<close> is the value of \<^verbatim>\<open>pd.to_datetime("today")\<close>, the wall clock, a
  timestamp without time zone.
\<close>

datatype datetime = NaT | Naive int | Aware int

text \<open>
  The subtraction \<^verbatim>\<open>today - ts\<close>. With \<^verbatim>\<open>NaT\<close> it is the missing value (\<open>None\<close>) and
  raises nothing. A timestamp with a time zone cannot be subtracted from one without,
  and a difference outside the 64 bits of a \<^verbatim>\<open>Timedelta\<close> overflows: both raise (the
  handler of the caller catches every exception, whatever its class).
\<close>

definition timestamp_sub :: "int \<Rightarrow> datetime \<Rightarrow> pyerr + int option" where
  "timestamp_sub today ts =
     (case ts of
        NaT \<Rightarrow> Inr None
      | Aware t \<Rightarrow> Inl TypeError
      | Naive t \<Rightarrow>
          if - (2 ^ 63) < today - t \<and> today - t < 2 ^ 63 then Inr (Some (today - t))
          else Inl OverflowError)"

text \<open>\<^verbatim>\<open>Timedelta.days\<close> is the floor of the difference in days.\<close>

definition ns_per_day :: int where
  "ns_per_day = 86400000000000"

definition timedelta_days :: "int \<Rightarrow> int" where
  "timedelta_days delta = delta div ns_per_day"

text \<open>
  The first half of the function: the \<^verbatim>\<open>try\<close> block covers the conversion, the
  subtraction and the division by \<^verbatim>\<open>365.25\<close>; any exception gives 0, as an absent
  hire date does. The \<^verbatim>\<open>days\<close> of the missing difference is NaN, and so is the
  quotient then.
\<close>

definition years_at_company :: "('d \<Rightarrow> pyerr + datetime) \<Rightarrow> int \<Rightarrow> 'd option \<Rightarrow> pyfloat" where
  "years_at_company to_datetime today hire_date =
     (case hire_date of
        None \<Rightarrow> Fin 0
      | Some d \<Rightarrow>
          (case to_datetime d of
             Inl e \<Rightarrow> Fin 0
           | Inr ts \<Rightarrow>
               (case timestamp_sub today ts of
                  Inl e \<Rightarrow> Fin 0
                | Inr None \<Rightarrow> NaN
                | Inr (Some delta) \<Rightarrow>
                    (case float_of_int (timedelta_days delta) of
                       Inl e \<Rightarrow> Fin 0
                     | Inr x \<Rightarrow> float_div x (1461 / 4)))))"

text \<open>The second half: the ladder of \<^verbatim>\<open>if\<close> statements, in the order of the source.\<close>

definition seniority_ladder :: "int \<Rightarrow> pyfloat \<Rightarrow> string" where
  "seniority_ladder age years =
     (if age < 28 \<and> float_lt years 3 then ''Junior''
      else if age < 35 \<and> float_lt years 6 then ''Mid''
      else if age < 45 \<and> float_lt years 12 then ''Senior''
      else if age < 60 \<and> float_ge years 8 then ''Manager''
      else ''Director'')"

definition infer_seniority :: "('d \<Rightarrow> pyerr + datetime) \<Rightarrow> int \<Rightarrow> int \<Rightarrow> 'd option \<Rightarrow> string" where
  "infer_seniority to_datetime today age hire_date =
     seniority_ladder age (years_at_company to_datetime today hire_date)"

text \<open>
  The ladder as the specification words it: an ordered list of rules, each a condition
  on age and tenure with a label; the label of the first rule that matches, and
  Director when none does.
\<close>

definition spec_rules :: "((int \<Rightarrow> pyfloat \<Rightarrow> bool) \<times> string) list" where
  "spec_rules =
     [(\<lambda>age tenure. age < 28 \<and> float_lt tenure 3, ''Junior''),
      (\<lambda>age tenure. age < 35 \<and> float_lt tenure 6, ''Mid''),
      (\<lambda>age tenure. age < 45 \<and> float_lt tenure 12, ''Senior''),
      (\<lambda>age tenure. age < 60 \<and> float_ge tenure 8, ''Manager'')]"

fun first_match :: "((int \<Rightarrow> pyfloat \<Rightarrow> bool) \<times> string) list \<Rightarrow> int \<Rightarrow> pyfloat \<Rightarrow> string" where
  "first_match [] age tenure = ''Director''"
| "first_match ((cond, label) # rules) age tenure =
     (if cond age tenure then label else first_match rules age tenure)"

section \<open>The record store\<close>

text \<open>
  The backing file is missing, unreadable, or holds a content. A data frame is a list
  of column names and a list of rows, each row a list of cells in the order of the
  columns; an empty cell (NaN) is \<open>None\<close>. The CSV reader of pandas is a parameter
  \<open>read_csv\<close>; it is called with the path, and raises the error of the operating system
  when the file cannot be opened.
\<close>

datatype 'f storage = Missing | Unreadable | Stored 'f

record 'v dataframe =
  columns :: "string list"
  rows :: "'v option list list"

definition load_data :: "('f \<Rightarrow> pyerr + 'v dataframe) \<Rightarrow> 'f storage \<Rightarrow> pyerr + 'v dataframe" where
  "load_data read_csv st =
     (case st of
        Missing \<Rightarrow> Inl FileNotFoundError
      | Unreadable \<Rightarrow> Inl PermissionError
      | Stored f \<Rightarrow> read_csv f)"

section \<open>Values for the examples\<close>

text \<open>
  The library parameter at which the theorems below are tried. A hire date argument is
  a timestamp (a date counts as its midnight), a blank text, which is a missing value,
  or a text that holds no date, on which \<^verbatim>\<open>pandas.to_datetime\<close> raises.
\<close>

datatype hire_arg = Timestamp int | Blank | Unparseable string

fun example_to_datetime :: "hire_arg \<Rightarrow> pyerr + datetime" where
  "example_to_datetime (Timestamp t) = Inr (Naive t)"
| "example_to_datetime Blank = Inr NaT"
| "example_to_datetime (Unparseable s) = Inl ValueError"

section \<open>Notions of the statements\<close>

text \<open>
  \<^verbatim>\<open>str(n)\<close> of a natural number, to write the percentage string of a whole number.
\<close>

fun str_of_nat :: "nat \<Rightarrow> string" where
  "str_of_nat n =
     (if n < 10 then [char_of (48 + n)]
      else str_of_nat (n div 10) @ [char_of (48 + n mod 10)])"

declare str_of_nat.simps [simp del]

text \<open>
  The value of a finite number, and the values the interpreter can pass: a float
  argument is a binary64 number.
\<close>

fun num_val :: "pyval \<Rightarrow> rat option" where
  "num_val (PInt n) = Some (of_int n)"
| "num_val (PFloat (Fin q)) = Some q"
| "num_val v = None"

fun is_py_value :: "pyval \<Rightarrow> bool" where
  "is_py_value (PFloat (Fin q)) = is_double q"
| "is_py_value v = True"

text \<open>
  The text \<^verbatim>\<open>float\<close> is applied to: the argument, without its \<^verbatim>\<open>%\<close> signs when it
  is a string that ends with one.
\<close>

definition float_arg :: "pyval \<Rightarrow> pyval" where
  "float_arg v = (if is_pct_str v then strip_pct v else v)"
section \<open>Properties\<close>

subsection \<open>Binary64 rounding\<close>

lemma bitlen_pos: "0 < a \<Longrightarrow> 1 \<le> bitlen a"
  using bitlen_eq_zero_iff [of a] bitlen_nonneg [of a] by linarith

lemma pow2_bitlen_bounds:
  assumes "0 < a"
  shows "(2::rat) powi (bitlen a - 1) \<le> of_int a" and "of_int a < (2::rat) powi bitlen a"
proof -
  have l: "1 \<le> bitlen a" using assms by (rule bitlen_pos)
  from bitlen_bounds [OF assms]
  have 1: "2 ^ nat (bitlen a - 1) \<le> a" and 2: "a < 2 ^ nat (bitlen a)" by auto
  have "(2::rat) powi (bitlen a - 1) = of_int (2 ^ nat (bitlen a - 1))"
    using l by (simp add: power_int_def)
  also have "\<dots> \<le> of_int a" using 1 by (simp only: of_int_le_iff)
  finally show "(2::rat) powi (bitlen a - 1) \<le> of_int a" .
  have "(of_int a :: rat) < of_int (2 ^ nat (bitlen a))" using 2 by (simp only: of_int_less_iff)
  also have "\<dots> = (2::rat) powi bitlen a" using l by (simp add: power_int_def)
  finally show "of_int a < (2::rat) powi bitlen a" .
qed

lemma ilog2_bounds:
  assumes "q \<noteq> 0"
  shows "2 powi ilog2 q \<le> \<bar>q\<bar>" and "\<bar>q\<bar> < 2 powi (ilog2 q + 1)"
proof -
  obtain a b where ab: "quotient_of \<bar>q\<bar> = (a, b)" by (cases "quotient_of \<bar>q\<bar>")
  have b: "0 < b" using quotient_of_denom_pos [OF ab] .
  have q: "\<bar>q\<bar> = of_int a / of_int b" using quotient_of_div [OF ab] .
  have "0 < \<bar>q\<bar>" using assms by simp
  then have a: "0 < a" using b q by (simp add: zero_less_divide_iff)
  define d where "d = bitlen a - bitlen b"
  note A = pow2_bitlen_bounds [OF a] and B = pow2_bitlen_bounds [OF b]
  have bpos: "(0::rat) < of_int b" using b by simp
  have "\<bar>q\<bar> < 2 powi bitlen a / 2 powi (bitlen b - 1)"
    unfolding q using A(2) B(1) a
    by (intro frac_less) auto
  also have "\<dots> = 2 powi (d + 1)"
    unfolding d_def by (simp flip: power_int_diff) (simp add: algebra_simps)
  finally have up: "\<bar>q\<bar> < 2 powi (d + 1)" .
  have "(2::rat) powi (d - 1) = 2 powi (bitlen a - 1) / 2 powi bitlen b"
    unfolding d_def by (simp flip: power_int_diff) (simp add: algebra_simps)
  also have "\<dots> \<le> \<bar>q\<bar>"
    unfolding q using A(1) B(2) bpos a
    by (intro frac_le) auto
  finally have lo: "2 powi (d - 1) \<le> \<bar>q\<bar>" .
  have il: "ilog2 q = (if 2 powi d \<le> \<bar>q\<bar> then d else d - 1)"
    by (simp add: ilog2_def ab d_def Let_def)
  show "2 powi ilog2 q \<le> \<bar>q\<bar>" using lo by (simp add: il)
  show "\<bar>q\<bar> < 2 powi (ilog2 q + 1)" using up by (auto simp: il)
qed

lemma ilog2_unique:
  assumes "2 powi e \<le> \<bar>q\<bar>" and "\<bar>q\<bar> < 2 powi (e + 1)"
  shows "ilog2 q = e"
proof -
  have "(0::rat) < 2 powi e" by simp
  with assms(1) have "0 < \<bar>q\<bar>" by linarith
  then have "q \<noteq> 0" by simp
  note B = ilog2_bounds [OF this]
  have "(2::rat) powi e < 2 powi (ilog2 q + 1)" using assms(1) B(2) by linarith
  then have 1: "e < ilog2 q + 1"
    by (metis linorder_not_less one_less_numeral_iff power_int_increasing semiring_norm(76) less_eq_rat_def order_less_imp_le)
  have "(2::rat) powi ilog2 q < 2 powi (e + 1)" using assms(2) B(1) by linarith
  then have 2: "ilog2 q < e + 1"
    by (metis linorder_not_less one_less_numeral_iff power_int_increasing semiring_norm(76) less_eq_rat_def order_less_imp_le)
  from 1 2 show ?thesis by linarith
qed

lemma ilog2_mono:
  assumes "q \<noteq> 0" and "\<bar>q\<bar> \<le> \<bar>p\<bar>"
  shows "ilog2 q \<le> ilog2 p"
proof -
  have p: "p \<noteq> 0" using assms by auto
  have "(2::rat) powi ilog2 q < 2 powi (ilog2 p + 1)"
    using ilog2_bounds(1) [OF assms(1)] ilog2_bounds(2) [OF p] assms(2) by linarith
  then have "ilog2 q < ilog2 p + 1"
    by (metis linorder_not_less one_less_numeral_iff power_int_increasing semiring_norm(76) less_eq_rat_def order_less_imp_le)
  then show ?thesis by linarith
qed

lemma pow2_less_cancel: "(2::rat) powi a < 2 powi b \<Longrightarrow> a < b"
proof (rule ccontr)
  assume lt: "(2::rat) powi a < 2 powi b" and "\<not> a < b"
  then have "b \<le> a" by simp
  then have "(2::rat) powi b \<le> 2 powi a" by (intro power_int_increasing) auto
  with lt show False by linarith
qed

lemma pow2_mono: "a \<le> b \<Longrightarrow> (2::rat) powi a \<le> 2 powi b"
  by (intro power_int_increasing) auto

lemma pow2_split: "k \<le> n \<Longrightarrow> (2::rat) powi n = of_int (2 ^ nat (n - k)) * 2 powi k"
proof -
  assume "k \<le> n"
  then have "(2::rat) powi n = 2 powi (n - k) * 2 powi k"
    by (simp flip: power_int_add)
  also have "(2::rat) powi (n - k) = of_int (2 ^ nat (n - k))"
    using \<open>k \<le> n\<close> by (simp add: power_int_def)
  finally show ?thesis .
qed

lemma rhe_of_int [simp]: "round_half_even (of_int n) = n"
  by (simp add: round_half_even_def)

lemma rhe_mono:
  assumes "x \<le> y"
  shows "round_half_even x \<le> round_half_even y"
proof (cases "\<lfloor>x\<rfloor> = \<lfloor>y\<rfloor>")
  case True
  then show ?thesis using assms
    by (auto simp: round_half_even_def Let_def)
next
  case False
  with assms have "\<lfloor>x\<rfloor> < \<lfloor>y\<rfloor>" using floor_mono [of x y] by linarith
  moreover have "round_half_even x \<le> \<lfloor>x\<rfloor> + 1"
    by (simp add: round_half_even_def Let_def)
  moreover have "\<lfloor>y\<rfloor> \<le> round_half_even y"
    by (simp add: round_half_even_def Let_def)
  ultimately show ?thesis by linarith
qed

lemma rhe_le_int: "x \<le> of_int m \<Longrightarrow> round_half_even x \<le> m"
  using rhe_mono [of x "of_int m"] by simp

lemma rhe_ge_int: "of_int m \<le> x \<Longrightarrow> m \<le> round_half_even x"
  using rhe_mono [of "of_int m" x] by simp

lemma rnd64_grid_le:
  assumes "q \<le> of_int m * 2 powi ulp_exp q"
  shows "rnd64 q \<le> of_int m * 2 powi ulp_exp q"
proof (cases "q = 0")
  case True
  with assms show ?thesis by (simp add: rnd64_def)
next
  case False
  have U: "(0::rat) < 2 powi ulp_exp q" by simp
  from assms have "q / 2 powi ulp_exp q \<le> of_int m"
    using U by (simp add: pos_divide_le_eq)
  then have "round_half_even (q / 2 powi ulp_exp q) \<le> m" by (rule rhe_le_int)
  then have "(of_int (round_half_even (q / 2 powi ulp_exp q)) :: rat) \<le> of_int m"
    by (simp only: of_int_le_iff)
  then show ?thesis using U False by (simp add: rnd64_def)
qed

lemma rnd64_grid_ge:
  assumes "of_int m * 2 powi ulp_exp q \<le> q"
  shows "of_int m * 2 powi ulp_exp q \<le> rnd64 q"
proof (cases "q = 0")
  case True
  with assms show ?thesis by (simp add: rnd64_def)
next
  case False
  have U: "(0::rat) < 2 powi ulp_exp q" by simp
  from assms have "of_int m \<le> q / 2 powi ulp_exp q"
    using U by (simp add: pos_le_divide_eq)
  then have "m \<le> round_half_even (q / 2 powi ulp_exp q)" by (rule rhe_ge_int)
  then have "(of_int m :: rat) \<le> of_int (round_half_even (q / 2 powi ulp_exp q))"
    by (simp only: of_int_le_iff)
  then show ?thesis using U False by (simp add: rnd64_def)
qed

lemma rnd64_nonneg: "0 \<le> q \<Longrightarrow> 0 \<le> rnd64 q"
  using rnd64_grid_ge [of 0 q] by simp

lemma rnd64_nonpos: "q \<le> 0 \<Longrightarrow> rnd64 q \<le> 0"
  using rnd64_grid_le [of q 0] by simp

lemma rnd64_zero [simp]: "rnd64 0 = 0"
  by (simp add: rnd64_def)

text \<open>Bounds by a power of two at or above the unit in the last place.\<close>

lemma rnd64_le_pow2:
  assumes "ulp_exp q \<le> k" and "q \<le> 2 powi k"
  shows "rnd64 q \<le> 2 powi k"
  using rnd64_grid_le [of q "2 ^ nat (k - ulp_exp q)"] assms pow2_split [OF assms(1)]
  by simp

lemma rnd64_ge_pow2:
  assumes "ulp_exp q \<le> k" and "2 powi k \<le> q"
  shows "2 powi k \<le> rnd64 q"
  using rnd64_grid_ge [of "2 ^ nat (k - ulp_exp q)" q] assms pow2_split [OF assms(1)]
  by simp

lemma rnd64_le_neg_pow2:
  assumes "ulp_exp q \<le> k" and "q \<le> - (2 powi k)"
  shows "rnd64 q \<le> - (2 powi k)"
  using rnd64_grid_le [of q "- (2 ^ nat (k - ulp_exp q))"] assms pow2_split [OF assms(1)]
  by simp

lemma rnd64_ge_neg_pow2:
  assumes "ulp_exp q \<le> k" and "- (2 powi k) \<le> q"
  shows "- (2 powi k) \<le> rnd64 q"
  using rnd64_grid_ge [of "- (2 ^ nat (k - ulp_exp q))" q] assms pow2_split [OF assms(1)]
  by simp

lemma rnd64_exact:
  assumes "ulp_exp q \<le> k" and "q = of_int m * 2 powi k"
  shows "rnd64 q = q"
proof -
  have q: "q = of_int (m * 2 ^ nat (k - ulp_exp q)) * 2 powi ulp_exp q"
    using assms(2) pow2_split [OF assms(1)] by simp
  have "rnd64 q \<le> of_int (m * 2 ^ nat (k - ulp_exp q)) * 2 powi ulp_exp q"
    by (rule rnd64_grid_le) (use q in simp)
  moreover have "of_int (m * 2 ^ nat (k - ulp_exp q)) * 2 powi ulp_exp q \<le> rnd64 q"
    by (rule rnd64_grid_ge) (use q in simp)
  ultimately show ?thesis using q by linarith
qed

lemma ulp_exp_mono: "q \<noteq> 0 \<Longrightarrow> \<bar>q\<bar> \<le> \<bar>p\<bar> \<Longrightarrow> ulp_exp q \<le> ulp_exp p"
  using ilog2_mono [of q p] by (simp add: ulp_exp_def)

lemma rnd64_same_ulp:
  assumes "q \<le> p" and "ulp_exp q = ulp_exp p" and "q \<noteq> 0" and "p \<noteq> 0"
  shows "rnd64 q \<le> rnd64 p"
proof -
  have U: "(0::rat) < 2 powi ulp_exp p" by simp
  have "q / 2 powi ulp_exp p \<le> p / 2 powi ulp_exp p"
    using assms(1) U by (simp add: divide_right_mono)
  then have "round_half_even (q / 2 powi ulp_exp p) \<le> round_half_even (p / 2 powi ulp_exp p)"
    by (rule rhe_mono)
  then have "(of_int (round_half_even (q / 2 powi ulp_exp p)) :: rat)
               \<le> of_int (round_half_even (p / 2 powi ulp_exp p))"
    by (simp only: of_int_le_iff)
  then show ?thesis using assms(2,3,4) U by (simp add: rnd64_def)
qed

lemma rnd64_mono_pos:
  assumes "0 < q" and "q \<le> p"
  shows "rnd64 q \<le> rnd64 p"
proof (cases "ulp_exp q = ulp_exp p")
  case True
  then show ?thesis using assms by (intro rnd64_same_ulp) auto
next
  case False
  have q0: "q \<noteq> 0" and p0: "p \<noteq> 0" using assms by auto
  have "ulp_exp q \<le> ulp_exp p" using assms by (intro ulp_exp_mono) auto
  with False have lt: "ulp_exp q < ulp_exp p" by simp
  then have e: "ulp_exp p = ilog2 p - 52" and ee: "ilog2 q < ilog2 p"
    by (auto simp: ulp_exp_def max_def split: if_splits)
  have "q < 2 powi (ilog2 q + 1)" using ilog2_bounds(2) [OF q0] assms by simp
  also have "\<dots> \<le> 2 powi ilog2 p" using ee by (intro pow2_mono) simp
  finally have "q \<le> 2 powi ilog2 p" by simp
  then have 1: "rnd64 q \<le> 2 powi ilog2 p"
    using lt e by (intro rnd64_le_pow2) auto
  have "2 powi ilog2 p \<le> p" using ilog2_bounds(1) [OF p0] assms by simp
  then have 2: "2 powi ilog2 p \<le> rnd64 p"
    using e by (intro rnd64_ge_pow2) auto
  from 1 2 show ?thesis by linarith
qed

lemma rnd64_mono_neg:
  assumes "p < 0" and "q \<le> p"
  shows "rnd64 q \<le> rnd64 p"
proof (cases "ulp_exp q = ulp_exp p")
  case True
  then show ?thesis using assms by (intro rnd64_same_ulp) auto
next
  case False
  have q0: "q \<noteq> 0" and p0: "p \<noteq> 0" using assms by auto
  have "ulp_exp p \<le> ulp_exp q" using assms by (intro ulp_exp_mono) auto
  with False have lt: "ulp_exp p < ulp_exp q" by simp
  then have e: "ulp_exp q = ilog2 q - 52" and ee: "ilog2 p < ilog2 q"
    by (auto simp: ulp_exp_def max_def split: if_splits)
  have "- p < 2 powi (ilog2 p + 1)" using ilog2_bounds(2) [OF p0] assms by simp
  also have "\<dots> \<le> 2 powi ilog2 q" using ee by (intro pow2_mono) simp
  finally have "- (2 powi ilog2 q) \<le> p" by simp
  then have 1: "- (2 powi ilog2 q) \<le> rnd64 p"
    using lt e by (intro rnd64_ge_neg_pow2) auto
  have "2 powi ilog2 q \<le> - q" using ilog2_bounds(1) [OF q0] assms by simp
  then have "q \<le> - (2 powi ilog2 q)" by simp
  then have 2: "rnd64 q \<le> - (2 powi ilog2 q)"
    using e by (intro rnd64_le_neg_pow2) auto
  from 1 2 show ?thesis by linarith
qed

lemma rnd64_mono:
  assumes "q \<le> p"
  shows "rnd64 q \<le> rnd64 p"
proof -
  consider "0 < q" | "p < 0" | "q \<le> 0" "0 \<le> p" by linarith
  then show ?thesis
  proof cases
    case 1
    then show ?thesis using assms by (rule rnd64_mono_pos)
  next
    case 2
    then show ?thesis using assms by (rule rnd64_mono_neg)
  next
    case 3
    then show ?thesis using rnd64_nonpos [of q] rnd64_nonneg [of p] by linarith
  qed
qed

lemma rnd64_of_int:
  assumes "\<bar>n\<bar> < 2 ^ 53"
  shows "rnd64 (of_int n) = of_int n"
proof (cases "n = 0")
  case True
  then show ?thesis by simp
next
  case False
  then have n0: "(of_int n :: rat) \<noteq> 0" by simp
  have "(of_int \<bar>n\<bar> :: rat) < of_int (2 ^ 53)" using assms by (simp only: of_int_less_iff)
  then have "\<bar>of_int n :: rat\<bar> < 2 powi 53" by simp
  with ilog2_bounds(1) [OF n0] have "(2::rat) powi ilog2 (of_int n) < 2 powi 53" by linarith
  then have "ilog2 (of_int n) < 53" by (rule pow2_less_cancel)
  then have "ulp_exp (of_int n) \<le> 0" by (simp add: ulp_exp_def)
  then show ?thesis by (rule rnd64_exact) simp
qed

lemma ilog2_less_iff:
  assumes "r \<noteq> 0"
  shows "ilog2 r < k \<longleftrightarrow> \<bar>r\<bar> < 2 powi k"
proof
  assume "ilog2 r < k"
  then have "(2::rat) powi (ilog2 r + 1) \<le> 2 powi k" by (intro pow2_mono) simp
  with ilog2_bounds(2) [OF assms] show "\<bar>r\<bar> < 2 powi k" by linarith
next
  assume "\<bar>r\<bar> < 2 powi k"
  with ilog2_bounds(1) [OF assms] have "(2::rat) powi ilog2 r < 2 powi k" by linarith
  then show "ilog2 r < k" by (rule pow2_less_cancel)
qed

lemma to_double_eq:
  "to_double q = (if 2 powi 1024 \<le> rnd64 q then PInf
                  else if rnd64 q \<le> - (2 powi 1024) then NInf else Fin (rnd64 q))"
proof (cases "rnd64 q = 0")
  case True
  then show ?thesis by (simp add: to_double_def)
next
  case False
  from ilog2_less_iff [OF False, of 1024]
  have "1024 \<le> ilog2 (rnd64 q) \<longleftrightarrow> 2 powi 1024 \<le> \<bar>rnd64 q\<bar>" by linarith
  then show ?thesis using False by (auto simp: to_double_def Let_def)
qed

lemma to_double_Fin: "\<bar>rnd64 q\<bar> < 2 powi 1024 \<Longrightarrow> to_double q = Fin (rnd64 q)"
  by (simp add: to_double_eq) linarith

lemma pow2_strict_mono: "a < b \<Longrightarrow> (2::rat) powi a < 2 powi b"
  by (intro power_int_strict_increasing) auto

lemma ulp_exp_le:
  assumes "q \<noteq> 0" and "- 1074 \<le> k" and "\<bar>q\<bar> \<le> 2 powi k"
  shows "ulp_exp q \<le> k"
proof -
  have "(2::rat) powi ilog2 q < 2 powi (k + 1)"
    using ilog2_bounds(1) [OF assms(1)] assms(3) pow2_strict_mono [of k "k + 1"] by linarith
  then have "ilog2 q < k + 1" by (rule pow2_less_cancel)
  then show ?thesis using assms(2) by (simp add: ulp_exp_def)
qed

lemma rnd64_abs_le_pow2:
  assumes "- 1074 \<le> k" and "\<bar>q\<bar> \<le> 2 powi k"
  shows "\<bar>rnd64 q\<bar> \<le> 2 powi k"
proof (cases "q = 0")
  case True
  then show ?thesis by simp
next
  case False
  have u: "ulp_exp q \<le> k" using False assms by (rule ulp_exp_le)
  have "rnd64 q \<le> 2 powi k" using u assms(2) by (intro rnd64_le_pow2) auto
  moreover have "- (2 powi k) \<le> rnd64 q" using u assms(2) by (intro rnd64_ge_neg_pow2) auto
  ultimately show ?thesis by linarith
qed

lemma to_double_Fin_le:
  assumes "- 1074 \<le> k" and "k < 1024" and "\<bar>q\<bar> \<le> 2 powi k"
  shows "to_double q = Fin (rnd64 q)"
proof -
  have "\<bar>rnd64 q\<bar> \<le> 2 powi k" using assms(1,3) by (rule rnd64_abs_le_pow2)
  also have "(2::rat) powi k < 2 powi 1024" using assms(2) by (rule pow2_strict_mono)
  finally show ?thesis by (rule to_double_Fin)
qed

lemma to_double_of_int:
  assumes "\<bar>n\<bar> < 2 ^ 53"
  shows "to_double (of_int n) = Fin (of_int n)"
proof -
  have "(of_int \<bar>n\<bar> :: rat) < of_int (2 ^ 53)" using assms by (simp only: of_int_less_iff)
  then have "\<bar>of_int n :: rat\<bar> \<le> 2 powi 53" by simp
  then have "to_double (of_int n) = Fin (rnd64 (of_int n))"
    by (intro to_double_Fin_le [of 53]) auto
  then show ?thesis using rnd64_of_int [OF assms] by simp
qed

lemma float_of_int_small: "\<bar>n\<bar> < 2 ^ 53 \<Longrightarrow> float_of_int n = Inr (Fin (of_int n))"
  by (simp add: float_of_int_def to_double_of_int)

lemma to_double_range:
  assumes "to_double r = Fin q"
  shows "q = rnd64 r" and "\<bar>q\<bar> < 2 powi 1024"
proof -
  from assms have a: "\<not> 2 powi 1024 \<le> rnd64 r" and b: "\<not> rnd64 r \<le> - (2 powi 1024)"
    and c: "q = rnd64 r"
    unfolding to_double_eq by (auto split: if_splits)
  show "q = rnd64 r" by (rule c)
  show "\<bar>q\<bar> < 2 powi 1024" using a b c by linarith
qed

lemma pct_finite:
  assumes "\<bar>q\<bar> < 2 powi 1024"
  shows "to_double (q / 100) = Fin (rnd64 (q / 100))"
    and "to_double (25 * rnd64 (q / 100)) = Fin (rnd64 (25 * rnd64 (q / 100)))"
proof -
  have s: "(2::rat) powi 1024 = 64 * 2 powi 1018"
    using pow2_split [of 1018 1024] by simp
  have s2: "(2::rat) powi 1023 = 32 * 2 powi 1018"
    using pow2_split [of 1018 1023] by simp
  have "\<bar>q / 100\<bar> = \<bar>q\<bar> / 100" by simp
  also have "\<dots> \<le> \<bar>q\<bar> / 64" by (intro divide_left_mono) auto
  also have "\<dots> \<le> 2 powi 1018" using assms unfolding s by simp
  finally have 1: "\<bar>q / 100\<bar> \<le> 2 powi 1018" .
  then show "to_double (q / 100) = Fin (rnd64 (q / 100))"
    by (intro to_double_Fin_le [of 1018]) auto
  have "\<bar>rnd64 (q / 100)\<bar> \<le> 2 powi 1018" using 1 by (intro rnd64_abs_le_pow2) auto
  then have "\<bar>25 * rnd64 (q / 100)\<bar> \<le> 2 powi 1023" unfolding s2 by (simp add: abs_mult)
  then show "to_double (25 * rnd64 (q / 100)) = Fin (rnd64 (25 * rnd64 (q / 100)))"
    by (intro to_double_Fin_le [of 1023]) auto
qed

subsection \<open>Seniority\<close>

text \<open>
  Claim C2. For every age and tenure, \<open>infer_seniority\<close> returns the label of the first
  matching rule of the ladder (age < 28 and tenure < 3: Junior; age < 35 and tenure < 6:
  Mid; age < 45 and tenure < 12: Senior; age < 60 and tenure >= 8: Manager; otherwise
  Director), whatever the hire date gives as tenure; at (25, 0) it is Junior, at (30, 4)
  Mid, at (40, 10) Senior, at (50, 9) Manager and at (50, 2) Director.
\<close>

theorem seniority_first_match:
  "infer_seniority to_datetime today age hire_date
     = first_match spec_rules age (years_at_company to_datetime today hire_date)
   \<and> seniority_ladder age tenure = first_match spec_rules age tenure
   \<and> seniority_ladder 25 (Fin 0) = ''Junior''
   \<and> seniority_ladder 30 (Fin 4) = ''Mid''
   \<and> seniority_ladder 40 (Fin 10) = ''Senior''
   \<and> seniority_ladder 50 (Fin 9) = ''Manager''
   \<and> seniority_ladder 50 (Fin 2) = ''Director''"
  by (simp add: infer_seniority_def seniority_ladder_def spec_rules_def)

text \<open>
  Claim C9, as amended. A hire date that cannot be converted is not an error of
  \<open>infer_seniority\<close>: the exception is caught, the tenure is 0, and the result is the
  label the ladder gives for the age at tenure 0, the same as with no hire date.
\<close>

theorem unparseable_hire_date_is_tenure_zero:
  "to_datetime d = Inl e \<Longrightarrow>
     infer_seniority to_datetime today age (Some d) = seniority_ladder age (Fin 0)
   \<and> infer_seniority to_datetime today age (Some d) = infer_seniority to_datetime today age None"
  by (simp add: infer_seniority_def years_at_company_def)

theorem unparseable_hire_date_is_tenure_zero_witness:
  "example_to_datetime (Unparseable ''not a date'') = Inl ValueError
   \<and> infer_seniority example_to_datetime 0 25 (Some (Unparseable ''not a date'')) = seniority_ladder 25 (Fin 0)"
  using unparseable_hire_date_is_tenure_zero [of example_to_datetime "Unparseable ''not a date''" ValueError 0 25]
  by simp

text \<open>
  Claim C9, as stated, fails: with the text \<^verbatim>\<open>not a date\<close> as hire date and age 25 the
  function returns Junior and raises nothing.
\<close>

theorem unparseable_hire_date_returns_label:
  "infer_seniority example_to_datetime 0 25 (Some (Unparseable ''not a date'')) = ''Junior''"
  by (simp add: infer_seniority_def years_at_company_def seniority_ladder_def)

lemma timedelta_days_small:
  assumes "- (2 ^ 63) < delta" and "delta < 2 ^ 63"
  shows "\<bar>timedelta_days delta\<bar> < 2 ^ 53"
proof -
  have "delta div 86400000000000 \<le> 2 ^ 63 div 86400000000000"
    using assms(2) by (intro zdiv_mono1) simp_all
  moreover have "(- (2 ^ 63)) div 86400000000000 \<le> delta div 86400000000000"
    using assms(1) by (intro zdiv_mono1) simp_all
  ultimately show ?thesis by (simp add: timedelta_days_def ns_per_day_def)
qed

lemma four_years: "to_double (of_int 1461 / (1461 / 4)) = Fin 4"
  by code_simp

lemma days_example: "(1461 * ns_per_day + 5 - 0) div ns_per_day = 1461"
  by code_simp

lemma today_example: "- (2 ^ 63) < 1461 * ns_per_day + 5 - 0 \<and> 1461 * ns_per_day + 5 - 0 < 2 ^ 63"
  by code_simp

text \<open>
  Claim C6. The tenure is the difference of the current date and the hire date in whole
  days, divided by 365.25 (as a float): for a hire date that converts to a timestamp
  from which the current one can be subtracted, \<open>years_at_company\<close> is the binary64
  quotient of \<open>(today - t) div ns_per_day\<close> and \<open>1461 / 4\<close>. When the hire date is absent
  the tenure is 0, for every age: the ladder is evaluated with tenure 0.
\<close>

theorem tenure_is_days_over_365_25:
  "(to_datetime d = Inr (Naive t) \<and> - (2 ^ 63) < today - t \<and> today - t < 2 ^ 63 \<longrightarrow>
      years_at_company to_datetime today (Some d)
        = to_double (of_int ((today - t) div ns_per_day) / (1461 / 4)))
   \<and> years_at_company to_datetime today None = Fin 0
   \<and> infer_seniority to_datetime today age None = seniority_ladder age (Fin 0)
   \<and> infer_seniority to_datetime today age hire_date
       = seniority_ladder age (years_at_company to_datetime today hire_date)"
proof (intro conjI impI)
  assume h: "to_datetime d = Inr (Naive t) \<and> - (2 ^ 63) < today - t \<and> today - t < 2 ^ 63"
  then have "\<bar>timedelta_days (today - t)\<bar> < 2 ^ 53" by (intro timedelta_days_small) simp_all
  then have "float_of_int (timedelta_days (today - t)) = Inr (Fin (of_int (timedelta_days (today - t))))"
    by (rule float_of_int_small)
  then show "years_at_company to_datetime today (Some d)
               = to_double (of_int ((today - t) div ns_per_day) / (1461 / 4))"
    using h by (simp add: years_at_company_def timestamp_sub_def timedelta_days_def)
qed (simp_all add: years_at_company_def infer_seniority_def)

theorem tenure_is_days_over_365_25_witness:
  "example_to_datetime (Timestamp 0) = Inr (Naive 0)
   \<and> - (2 ^ 63) < 1461 * ns_per_day + 5 - 0 \<and> 1461 * ns_per_day + 5 - 0 < 2 ^ 63
   \<and> years_at_company example_to_datetime (1461 * ns_per_day + 5) (Some (Timestamp 0)) = Fin 4
   \<and> infer_seniority example_to_datetime (1461 * ns_per_day + 5) 30 (Some (Timestamp 0)) = ''Mid''"
proof -
  note T = tenure_is_days_over_365_25
    [of example_to_datetime "Timestamp 0" 0 "1461 * ns_per_day + 5" 30 "Some (Timestamp 0)"]
  have e: "example_to_datetime (Timestamp 0) = Inr (Naive 0)" by simp
  from T e today_example
  have "years_at_company example_to_datetime (1461 * ns_per_day + 5) (Some (Timestamp 0))
          = to_double (of_int ((1461 * ns_per_day + 5 - 0) div ns_per_day) / (1461 / 4))"
    by blast
  then have y: "years_at_company example_to_datetime (1461 * ns_per_day + 5) (Some (Timestamp 0)) = Fin 4"
    by (simp only: days_example four_years)
  from T have "infer_seniority example_to_datetime (1461 * ns_per_day + 5) 30 (Some (Timestamp 0))
                 = seniority_ladder 30 (years_at_company example_to_datetime (1461 * ns_per_day + 5)
                     (Some (Timestamp 0)))"
    by blast
  then have "infer_seniority example_to_datetime (1461 * ns_per_day + 5) 30 (Some (Timestamp 0)) = ''Mid''"
    by (simp add: y seniority_ladder_def)
  with e y today_example show ?thesis by blast
qed
lemma missing_hire_date_is_director:
  "years_at_company example_to_datetime today (Some Blank) = NaN
   \<and> infer_seniority example_to_datetime today age (Some Blank) = ''Director''"
  by (simp add: infer_seniority_def years_at_company_def timestamp_sub_def seniority_ladder_def)

subsection \<open>The record store\<close>

text \<open>
  Claim C4. When the backing file does not exist, or cannot be read, \<open>load_data\<close>
  raises an I/O error (\<^verbatim>\<open>FileNotFoundError\<close>, \<^verbatim>\<open>PermissionError\<close>); it returns no
  collection, empty or partial.
\<close>

theorem load_missing_file_fails:
  "load_data read_csv Missing = Inl FileNotFoundError
   \<and> load_data read_csv Unreadable = Inl PermissionError"
  by (simp add: load_data_def)

subsection \<open>Float literals\<close>

lemma is_digit_char_of: "d < 10 \<Longrightarrow> is_digit (char_of (48 + d :: nat))"
  by (simp add: is_digit_def)

lemma digit_val_char_of: "d < 10 \<Longrightarrow> digit_val (char_of (48 + d :: nat)) = d"
  by (simp add: digit_val_def)

lemma str_of_nat_digits: "list_all is_digit (str_of_nat n) \<and> str_of_nat n \<noteq> []"
proof (induction n rule: str_of_nat.induct)
  case (1 n)
  show ?case
  proof (cases "n < 10")
    case True
    then have "str_of_nat n = [char_of (48 + n)]" by (subst str_of_nat.simps) simp
    then show ?thesis using True by (simp add: is_digit_char_of)
  next
    case False
    then have "str_of_nat n = str_of_nat (n div 10) @ [char_of (48 + n mod 10)]"
      by (subst str_of_nat.simps) simp
    then show ?thesis using 1 False by (simp add: is_digit_char_of)
  qed
qed

lemma nat_of_digits_snoc: "nat_of_digits (ds @ [c]) = 10 * nat_of_digits ds + digit_val c"
  by (simp add: nat_of_digits_def)

lemma nat_of_digits_str_of_nat: "nat_of_digits (str_of_nat n) = n"
proof (induction n rule: str_of_nat.induct)
  case (1 n)
  show ?case
  proof (cases "n < 10")
    case True
    then have "str_of_nat n = [char_of (48 + n)]" by (subst str_of_nat.simps) simp
    then show ?thesis using True by (simp add: nat_of_digits_def digit_val_char_of)
  next
    case False
    then have "str_of_nat n = str_of_nat (n div 10) @ [char_of (48 + n mod 10)]"
      by (subst str_of_nat.simps) simp
    then show ?thesis using 1 False by (simp add: nat_of_digits_snoc digit_val_char_of)
  qed
qed

lemma digits_from_digits: "list_all is_digit s \<Longrightarrow> digits_from s = Some s"
  by (induction s) simp_all

lemma digitpart_digits: "s \<noteq> [] \<Longrightarrow> list_all is_digit s \<Longrightarrow> digitpart s = Some s"
  by (cases s) (simp_all add: digitpart_def digits_from_digits)

lemma digit_not_space: "is_digit c \<Longrightarrow> \<not> is_space c"
  by (auto simp: is_digit_def is_space_def)

lemma digit_neq:
  assumes "is_digit c"
  shows "c \<noteq> CHR ''%''" "c \<noteq> CHR ''-''" "c \<noteq> CHR ''+''" "c \<noteq> CHR ''.''"
    "c \<noteq> CHR ''e''" "c \<noteq> CHR ''E''" "c \<noteq> CHR ''i''" "c \<noteq> CHR ''n''"
  using assms by (auto simp: is_digit_def)

lemma digit_lower: "is_digit c \<Longrightarrow> lower c = c"
  by (simp add: is_digit_def lower_def)

lemma dropWhile_digits:
  assumes "s \<noteq> []" and "list_all is_digit s" and "\<And>c. is_digit c \<Longrightarrow> \<not> P c"
  shows "dropWhile P s = s"
  using assms by (cases s) simp_all

lemma takeWhile_digits:
  assumes "list_all is_digit s" and "\<And>c. is_digit c \<Longrightarrow> P c"
  shows "takeWhile P s = s" and "dropWhile P s = []"
  using assms by (simp_all add: list_all_iff)

lemma strip_digits:
  assumes "s \<noteq> []" and "list_all is_digit s" and "\<And>c. is_digit c \<Longrightarrow> \<not> P c"
  shows "strip P s = s"
proof -
  have 1: "dropWhile P s = s" using assms by (rule dropWhile_digits)
  have "rev s \<noteq> []" using assms(1) by simp
  moreover have "list_all is_digit (rev s)" using assms(2) by (simp add: list_all_iff)
  ultimately have 2: "dropWhile P (rev s) = rev s" using assms(3) by (rule dropWhile_digits)
  show ?thesis by (simp add: strip_def 1 2)
qed

lemma mantissa_digits:
  assumes "s \<noteq> []" and "list_all is_digit s"
  shows "mantissa s = Some (of_nat (nat_of_digits s))"
proof -
  have 1: "takeWhile (\<lambda>c. c \<noteq> CHR ''.'') s = s"
    using assms(2) by (rule takeWhile_digits(1)) (rule digit_neq)
  have 2: "dropWhile (\<lambda>c. c \<noteq> CHR ''.'') s = []"
    using assms(2) by (rule takeWhile_digits(2)) (rule digit_neq)
  show ?thesis
    unfolding mantissa_def 1 2 by (simp add: digitpart_digits [OF assms])
qed

lemma float_literal_digits:
  assumes "s \<noteq> []" and "list_all is_digit s"
  shows "float_literal s = Some (of_nat (nat_of_digits s))"
proof -
  have 1: "takeWhile (\<lambda>c. c \<noteq> CHR ''e'' \<and> c \<noteq> CHR ''E'') s = s"
    using assms(2) by (rule takeWhile_digits(1)) (simp add: digit_neq)
  have 2: "dropWhile (\<lambda>c. c \<noteq> CHR ''e'' \<and> c \<noteq> CHR ''E'') s = []"
    using assms(2) by (rule takeWhile_digits(2)) (simp add: digit_neq)
  show ?thesis
    unfolding float_literal_def 1 2 by (simp add: mantissa_digits [OF assms])
qed

lemma float_of_str_digits:
  assumes "s \<noteq> []" and "list_all is_digit s"
  shows "float_of_str s = Inr (to_double (of_nat (nat_of_digits s)))"
proof -
  have c: "is_digit (hd s)" using assms by (cases s) simp_all
  have t: "strip is_space s = s" using assms by (rule strip_digits) (rule digit_not_space)
  have l: "map lower s = s" using assms(2) by (induction s) (simp_all add: digit_lower)
  have n: "s \<noteq> ''inf''" "s \<noteq> ''infinity''" "s \<noteq> ''nan''"
    using digit_neq(7,8) [OF c] by auto
  have fl: "float_literal s = Some (of_nat (nat_of_digits s))"
    using assms by (rule float_literal_digits)
  have h: "hd s \<noteq> CHR ''-''" "hd s \<noteq> CHR ''+''" using c by (simp_all add: digit_neq)
  have u: "(if s \<noteq> [] \<and> (hd s = CHR ''-'' \<or> hd s = CHR ''+'') then tl s else s) = s"
    using h by simp
  show ?thesis
    unfolding float_of_str_def t Let_def u l fl using n h by simp
qed

lemma float_of_str_str_of_nat: "float_of_str (str_of_nat n) = Inr (to_double (of_nat n))"
  using float_of_str_digits [of "str_of_nat n"] str_of_nat_digits [of n]
  by (simp add: nat_of_digits_str_of_nat)

lemma endswith_pct: "endswith (s @ ''%'') ''%''"
  by (simp add: endswith_def)

lemma strip_pct_digits:
  assumes "s \<noteq> []" and "list_all is_digit s"
  shows "strip (\<lambda>c. c = CHR ''%'') (s @ ''%'') = s"
proof -
  obtain c cs where s: "s = c # cs" using assms(1) by (cases s) auto
  have c: "c \<noteq> CHR ''%''" using assms(2) s by (simp add: digit_neq)
  have 1: "dropWhile (\<lambda>c. c = CHR ''%'') (s @ ''%'') = s @ ''%''"
    using c s by simp
  have "rev s \<noteq> []" using assms(1) by simp
  moreover have "list_all is_digit (rev s)" using assms(2) by (simp add: list_all_iff)
  ultimately have 2: "dropWhile (\<lambda>c. c = CHR ''%'') (rev s) = rev s"
    by (rule dropWhile_digits) (simp add: digit_neq)
  show ?thesis by (simp add: strip_def 1 2)
qed

lemma float_of_pct_str:
  "float_of_str (strip (\<lambda>c. c = CHR ''%'') (str_of_nat n @ ''%'')) = Inr (to_double (of_nat n))"
  using strip_pct_digits [of "str_of_nat n"] str_of_nat_digits [of n]
  by (simp add: float_of_str_str_of_nat)

subsection \<open>Vacation days\<close>

lemma round_pct:
  assumes "\<bar>q\<bar> < 2 powi 1024"
  shows "py_round (float_mul 25 (float_div (Fin q) 100))
           = Inr (round_half_even (rnd64 (25 * rnd64 (q / 100))))"
  by (simp add: pct_finite [OF assms])

lemma of_int_small_range:
  assumes "\<bar>n\<bar> < 2 ^ 53"
  shows "\<bar>of_int n :: rat\<bar> < 2 powi 1024"
proof -
  have "(of_int \<bar>n\<bar> :: rat) < of_int (2 ^ 53)" using assms by (simp only: of_int_less_iff)
  then have "\<bar>of_int n :: rat\<bar> < 2 powi 53" by simp
  also have "(2::rat) powi 53 < 2 powi 1024" by (rule pow2_strict_mono) simp
  finally show ?thesis .
qed

lemma cvt_int_gt_one:
  assumes "1 < n" and "n < 2 ^ 53"
  shows "compute_vacation_total (PInt n)
           = Inr (round_half_even (rnd64 (25 * rnd64 (of_int n / 100))))"
proof -
  have n: "\<bar>n\<bar> < 2 ^ 53" using assms by simp
  show ?thesis
    using assms(1) round_pct [OF of_int_small_range [OF n]]
    by (simp add: compute_vacation_total_def workload_frac_def float_of_int_small [OF n])
qed

lemma cvt_int_le_one:
  assumes "n \<le> 1" and "- (2 ^ 48) < n"
  shows "compute_vacation_total (PInt n) = Inr (25 * n)"
proof -
  have n: "\<bar>n\<bar> < 2 ^ 53" using assms by simp
  have m: "\<bar>25 * n\<bar> < 2 ^ 53" using assms by simp
  have "to_double (25 * of_int n) = to_double (of_int (25 * n))" by simp
  also have "\<dots> = Fin (of_int (25 * n))" using m by (rule to_double_of_int)
  finally have "py_round (to_double (25 * of_int n)) = Inr (25 * n)"
    by (simp only: py_round.simps rhe_of_int)
  then show ?thesis
    using assms(1)
    by (simp add: compute_vacation_total_def workload_frac_def float_of_int_small [OF n])
qed

lemma cvt_float_gt_one:
  assumes "1 < q" and "q < 2 powi 1024"
  shows "compute_vacation_total (PFloat (Fin q))
           = Inr (round_half_even (rnd64 (25 * rnd64 (q / 100))))"
proof -
  have "\<bar>q\<bar> < 2 powi 1024" using assms by linarith
  from round_pct [OF this] show ?thesis
    using assms(1) by (simp add: compute_vacation_total_def workload_frac_def)
qed

lemma cvt_float_le_one:
  assumes "q \<le> 1" and "- (2 powi 1000) \<le> q"
  shows "compute_vacation_total (PFloat (Fin q)) = Inr (round_half_even (rnd64 (25 * q)))"
proof -
  have "(1::rat) \<le> 2 powi 1000" using pow2_mono [of 0 1000] by simp
  then have "\<bar>q\<bar> \<le> 2 powi 1000" using assms by linarith
  then have "\<bar>25 * q\<bar> \<le> 32 * 2 powi 1000" by (simp add: abs_mult)
  also have "\<dots> = 2 powi 1005" using pow2_split [of 1000 1005] by simp
  finally have "to_double (25 * q) = Fin (rnd64 (25 * q))"
    by (intro to_double_Fin_le [of 1005]) auto
  then show ?thesis
    using assms(1) by (simp add: compute_vacation_total_def workload_frac_def)
qed

lemma cvt_pct_str:
  assumes "n < 2 ^ 53"
  shows "compute_vacation_total (PStr (str_of_nat n @ ''%''))
           = Inr (round_half_even (rnd64 (25 * rnd64 (of_nat n / 100))))"
proof -
  have n: "\<bar>int n\<bar> < 2 ^ 53" using assms by simp
  have "to_double (of_nat n) = Fin (of_nat n)" using to_double_of_int [OF n] by simp
  then show ?thesis
    using round_pct [OF of_int_small_range [OF n]]
    by (simp add: compute_vacation_total_def workload_frac_def endswith_pct float_of_pct_str)
qed

lemma rnd64_one: "rnd64 1 = 1"
  using rnd64_of_int [of 1] by simp

lemma cvt_fraction:
  assumes "p \<le> 100"
  shows "compute_vacation_total (PFloat (to_double (of_nat p / 100)))
           = Inr (round_half_even (rnd64 (25 * rnd64 (of_nat p / 100))))"
proof -
  have p: "\<bar>int p\<bar> < 2 ^ 53" using assms by simp
  note F = pct_finite [OF of_int_small_range [OF p]]
  have "(of_nat p :: rat) \<le> 100" using assms by (simp add: of_nat_le_iff [of p 100, where ?'a = rat, simplified])
  then have "(of_nat p :: rat) / 100 \<le> 1" by simp
  then have "rnd64 (of_nat p / 100) \<le> rnd64 1" by (rule rnd64_mono)
  then have le: "rnd64 (of_nat p / 100) \<le> 1" by (simp add: rnd64_one)
  show ?thesis
    using F le by (simp add: compute_vacation_total_def workload_frac_def)
qed

lemma not_endswith_digits:
  assumes "list_all is_digit s"
  shows "\<not> endswith s ''%''"
proof (cases s rule: rev_cases)
  case Nil
  then show ?thesis by (simp add: endswith_def)
next
  case (snoc ys y)
  then have "is_digit y" using assms by simp
  then have "y \<noteq> CHR ''%''" by (rule digit_neq)
  then show ?thesis using snoc by (simp add: endswith_def)
qed

lemma cvt_digits_str:
  assumes "25 * int n < 2 ^ 53"
  shows "compute_vacation_total (PStr (str_of_nat n)) = Inr (25 * int n)"
proof -
  have n: "\<bar>int n\<bar> < 2 ^ 53" using assms by simp
  have m: "\<bar>25 * int n\<bar> < 2 ^ 53" using assms by simp
  have e: "\<not> endswith (str_of_nat n) ''%''"
    using str_of_nat_digits [of n] by (intro not_endswith_digits) simp
  have f: "to_double (of_nat n) = Fin (of_nat n)" using to_double_of_int [OF n] by simp
  have "to_double (25 * of_nat n) = to_double (of_int (25 * int n))" by simp
  also have "\<dots> = Fin (of_int (25 * int n))" using m by (rule to_double_of_int)
  finally have "py_round (to_double (25 * of_nat n)) = Inr (25 * int n)"
    by (simp only: py_round.simps rhe_of_int)
  then show ?thesis
    using e f by (simp add: compute_vacation_total_def workload_frac_def float_of_str_str_of_nat)
qed

lemma cvt_str_80_pct: "compute_vacation_total (PStr ''80%'') = Inr 20" by code_simp
lemma cvt_int_80: "compute_vacation_total (PInt 80) = Inr 20" by code_simp
lemma cvt_float_0_8: "compute_vacation_total (PFloat (to_double (4 / 5))) = Inr 20" by code_simp
lemma cvt_str_80: "compute_vacation_total (PStr ''80'') = Inr 2000" by code_simp
lemma cvt_int_0: "compute_vacation_total (PInt 0) = Inr 0" by code_simp
lemma cvt_int_1: "compute_vacation_total (PInt 1) = Inr 25" by code_simp
lemma cvt_float_1: "compute_vacation_total (PFloat (Fin 1)) = Inr 25" by code_simp
lemma cvt_int_100: "compute_vacation_total (PInt 100) = Inr 25" by code_simp
lemma cvt_int_200: "compute_vacation_total (PInt 200) = Inr 50" by code_simp
lemma cvt_int_neg: "compute_vacation_total (PInt (- 20)) = Inr (- 500)" by code_simp
lemma cvt_str_200_pct: "compute_vacation_total (PStr ''200%'') = Inr 50" by code_simp
lemma cvt_int_2: "compute_vacation_total (PInt 2) = Inr 0" by code_simp
lemma cvt_float_inf: "compute_vacation_total (PFloat PInf) = Inl OverflowError" by code_simp

lemma py_round_to_double:
  "py_round (to_double x)
     = (if \<bar>rnd64 x\<bar> < 2 powi 1024 then Inr (round_half_even (rnd64 x)) else Inl OverflowError)"
  unfolding to_double_eq by (auto simp: abs_less_iff not_le not_less)

lemma py_round_to_double_Inr:
  "py_round (to_double x) = Inr a \<Longrightarrow> a = round_half_even (rnd64 x)"
  unfolding py_round_to_double by (simp split: if_splits)

lemma py_float_numeric:
  assumes "is_py_value v" and "num_val v = Some w" and "py_float v = Inr x"
  shows "x = Fin (rnd64 w)" and "\<bar>rnd64 w\<bar> < 2 powi 1024"
proof -
  have "x = Fin (rnd64 w) \<and> \<bar>rnd64 w\<bar> < 2 powi 1024"
  proof (cases v)
    case (PInt n)
    with assms(2) have w: "w = of_int n" by simp
    from assms(3) PInt obtain r where r: "to_double (of_int n) = Fin r" and x: "x = Fin r"
      by (auto simp: float_of_int_def split: pyfloat.splits)
    from to_double_range [OF r] x w show ?thesis by simp
  next
    case (PFloat y)
    with assms(2) have y: "y = Fin w" by (cases y) simp_all
    with assms(1) PFloat have "to_double w = Fin w" by (simp add: is_double_def)
    from to_double_range [OF this] assms(3) PFloat y show ?thesis by simp
  qed (use assms(2) in simp_all)
  then show "x = Fin (rnd64 w)" and "\<bar>rnd64 w\<bar> < 2 powi 1024" by blast+
qed

lemma is_num_gt_one_numeric: "num_val v = Some w \<Longrightarrow> is_num_gt_one v \<longleftrightarrow> 1 < w"
proof (cases v rule: num_val.cases)
  case (1 n)
  assume "num_val v = Some w"
  with 1 have "w = of_int n" by simp
  moreover have "(1 < (of_int n :: rat)) = (1 < n)" using of_int_less_iff [of 1 n, where ?'a = rat] by simp
  ultimately show ?thesis using 1 by simp
qed simp_all

lemma not_pct_numeric: "num_val v = Some w \<Longrightarrow> \<not> is_pct_str v"
  by (cases v) simp_all

lemma cvt_numeric_Inr:
  assumes "is_py_value v" and "num_val v = Some w" and "compute_vacation_total v = Inr a"
  shows "a = (if 1 < w then round_half_even (rnd64 (25 * rnd64 (rnd64 w / 100)))
              else round_half_even (rnd64 (25 * rnd64 w)))"
proof -
  note g = is_num_gt_one_numeric [OF assms(2)] and p = not_pct_numeric [OF assms(2)]
  obtain x where x: "py_float v = Inr x"
    using assms(3) p
    by (cases "py_float v") (simp_all add: compute_vacation_total_def workload_frac_def split: if_splits)
  note F = py_float_numeric [OF assms(1,2) x]
  show ?thesis
  proof (cases "1 < w")
    case True
    from round_pct [OF F(2)] assms(3) True show ?thesis
      by (simp add: compute_vacation_total_def workload_frac_def p g x F(1))
  next
    case False
    from assms(3) False have "py_round (to_double (25 * rnd64 w)) = Inr a"
      by (simp add: compute_vacation_total_def workload_frac_def p g x F(1))
    from py_round_to_double_Inr [OF this] False show ?thesis by simp
  qed
qed

lemma py_float_numeric_bounded:
  assumes "is_py_value v" and "num_val v = Some w" and "\<bar>w\<bar> \<le> 2 powi 1000"
  shows "py_float v = Inr (Fin (rnd64 w))" and "\<bar>rnd64 w\<bar> \<le> 2 powi 1000"
proof -
  show b: "\<bar>rnd64 w\<bar> \<le> 2 powi 1000" using assms(3) by (intro rnd64_abs_le_pow2) auto
  have t: "to_double w = Fin (rnd64 w)" using assms(3) by (intro to_double_Fin_le [of 1000]) auto
  show "py_float v = Inr (Fin (rnd64 w))"
  proof (cases v)
    case (PInt n)
    with assms(2) t show ?thesis by (auto simp: float_of_int_def)
  next
    case (PFloat y)
    with assms(2) have y: "y = Fin w" by (cases y) simp_all
    with assms(1) PFloat have "to_double w = Fin w" by (simp add: is_double_def)
    with t PFloat y show ?thesis by simp
  qed (use assms(2) in simp_all)
qed

lemma cvt_numeric_bounded:
  assumes "is_py_value v" and "num_val v = Some w" and "\<bar>w\<bar> \<le> 2 powi 1000"
  shows "\<exists>a. compute_vacation_total v = Inr a"
proof -
  note g = is_num_gt_one_numeric [OF assms(2)] and p = not_pct_numeric [OF assms(2)]
  note F = py_float_numeric_bounded [OF assms]
  have lt: "\<bar>rnd64 w\<bar> < 2 powi 1024"
    using F(2) pow2_strict_mono [of 1000 1024] by simp
  show ?thesis
  proof (cases "1 < w")
    case True
    from round_pct [OF lt] True show ?thesis
      by (simp add: compute_vacation_total_def workload_frac_def p g F(1))
  next
    case False
    have "\<bar>25 * rnd64 w\<bar> \<le> 32 * 2 powi 1000" using F(2) by (simp add: abs_mult)
    also have "\<dots> = 2 powi 1005" using pow2_split [of 1000 1005] by simp
    finally have "to_double (25 * rnd64 w) = Fin (rnd64 (25 * rnd64 w))"
      by (intro to_double_Fin_le [of 1005]) auto
    with False show ?thesis
      by (simp add: compute_vacation_total_def workload_frac_def p g F(1))
  qed
qed

lemma days_mono:
  assumes "w1 \<le> w2" and "w2 \<le> 1 \<or> 1 < w1"
  shows "(if 1 < w1 then round_half_even (rnd64 (25 * rnd64 (rnd64 w1 / 100)))
          else round_half_even (rnd64 (25 * rnd64 w1)))
       \<le> (if 1 < w2 then round_half_even (rnd64 (25 * rnd64 (rnd64 w2 / 100)))
          else round_half_even (rnd64 (25 * rnd64 w2)))"
proof -
  have r: "rnd64 w1 \<le> rnd64 w2" using assms(1) by (rule rnd64_mono)
  show ?thesis
  proof (cases "1 < w1")
    case True
    then have 2: "1 < w2" using assms(1) by simp
    have "rnd64 w1 / 100 \<le> rnd64 w2 / 100" using r by (simp add: divide_right_mono)
    then have "rnd64 (rnd64 w1 / 100) \<le> rnd64 (rnd64 w2 / 100)" by (rule rnd64_mono)
    then have "25 * rnd64 (rnd64 w1 / 100) \<le> 25 * rnd64 (rnd64 w2 / 100)" by simp
    then have "rnd64 (25 * rnd64 (rnd64 w1 / 100)) \<le> rnd64 (25 * rnd64 (rnd64 w2 / 100))"
      by (rule rnd64_mono)
    then show ?thesis using True 2 by (simp add: rhe_mono)
  next
    case False
    then have 2: "\<not> 1 < w2" using assms(2) by auto
    have "25 * rnd64 w1 \<le> 25 * rnd64 w2" using r by simp
    then have "rnd64 (25 * rnd64 w1) \<le> rnd64 (25 * rnd64 w2)" by (rule rnd64_mono)
    then show ?thesis using False 2 by (simp add: rhe_mono)
  qed
qed

lemma half_workload: "round_half_even (rnd64 (25 * (1 / 2))) = 12" by code_simp
lemma fifty_pct: "round_half_even (rnd64 (25 * rnd64 (of_nat 50 / 100))) = 12" by code_simp
lemma str_of_nat_50: "str_of_nat 50 = ''50''" by code_simp

text \<open>
  Claim C1. For a workload fraction \<open>w\<close> in \<open>[0, 1]\<close> given as a number, the result is
  \<^verbatim>\<open>round(25 * w)\<close>: the product in binary64, rounded to the nearest integer (ties to
  even); for the integers 0 and 1 it is \<open>25 * w\<close>. The three formats agree: \<^verbatim>\<open>"80%"\<close>,
  \<^verbatim>\<open>0.8\<close> and \<^verbatim>\<open>80\<close> all give 20, and for every whole number \<open>p\<close> with \<open>1 < p \<le> 100\<close> the
  string \<^verbatim>\<open>"p%"\<close>, the float \<^verbatim>\<open>p / 100\<close> and the integer \<open>p\<close> give the same number of days.
\<close>

theorem workload_formats_agree:
  "(0 \<le> q \<and> q \<le> 1 \<longrightarrow>
      compute_vacation_total (PFloat (Fin q)) = Inr (round_half_even (rnd64 (25 * q))))
   \<and> (0 \<le> n \<and> n \<le> 1 \<longrightarrow> compute_vacation_total (PInt n) = Inr (25 * n))
   \<and> compute_vacation_total (PStr ''80%'') = Inr 20
   \<and> compute_vacation_total (PFloat (to_double (4 / 5))) = Inr 20
   \<and> compute_vacation_total (PInt 80) = Inr 20
   \<and> (1 < p \<and> p \<le> 100 \<longrightarrow>
        compute_vacation_total (PStr (str_of_nat p @ ''%'')) = compute_vacation_total (PInt (int p))
      \<and> compute_vacation_total (PFloat (to_double (of_nat p / 100)))
          = compute_vacation_total (PInt (int p))
      \<and> compute_vacation_total (PInt (int p))
          = Inr (round_half_even (rnd64 (25 * rnd64 (of_nat p / 100)))))"
proof (intro conjI impI)
  assume "0 \<le> q \<and> q \<le> 1"
  then have "q \<le> 1" and "- (2 powi 1000) \<le> q"
    using zero_less_power_int [of "2::rat" 1000] by simp_all
  then show "compute_vacation_total (PFloat (Fin q)) = Inr (round_half_even (rnd64 (25 * q)))"
    by (rule cvt_float_le_one)
next
  assume "0 \<le> n \<and> n \<le> 1"
  then show "compute_vacation_total (PInt n) = Inr (25 * n)"
    by (intro cvt_int_le_one) simp_all
next
  assume p: "1 < p \<and> p \<le> 100"
  then have a: "compute_vacation_total (PInt (int p))
                  = Inr (round_half_even (rnd64 (25 * rnd64 (of_nat p / 100))))"
    using cvt_int_gt_one [of "int p"] by simp
  have b: "compute_vacation_total (PStr (str_of_nat p @ ''%''))
             = Inr (round_half_even (rnd64 (25 * rnd64 (of_nat p / 100))))"
    using p by (intro cvt_pct_str) simp
  have c: "compute_vacation_total (PFloat (to_double (of_nat p / 100)))
             = Inr (round_half_even (rnd64 (25 * rnd64 (of_nat p / 100))))"
    using p by (intro cvt_fraction) simp
  show "compute_vacation_total (PStr (str_of_nat p @ ''%'')) = compute_vacation_total (PInt (int p))"
    by (simp only: a b)
  show "compute_vacation_total (PFloat (to_double (of_nat p / 100)))
          = compute_vacation_total (PInt (int p))"
    by (simp only: a c)
  show "compute_vacation_total (PInt (int p))
          = Inr (round_half_even (rnd64 (25 * rnd64 (of_nat p / 100))))"
    by (rule a)
qed (rule cvt_str_80_pct cvt_float_0_8 cvt_int_80)+

theorem workload_formats_agree_witness:
  "(0::rat) \<le> 1 / 2 \<and> (1 / 2 :: rat) \<le> 1
   \<and> compute_vacation_total (PFloat (Fin (1 / 2))) = Inr 12
   \<and> (0::int) \<le> 1 \<and> compute_vacation_total (PInt 1) = Inr 25
   \<and> (1::nat) < 50 \<and> (50::nat) \<le> 100
   \<and> compute_vacation_total (PStr ''50%'') = compute_vacation_total (PInt 50)
   \<and> compute_vacation_total (PFloat (to_double (50 / 100))) = compute_vacation_total (PInt 50)
   \<and> compute_vacation_total (PInt 50) = Inr 12"
  using workload_formats_agree [of "1 / 2" 1 50] half_workload fifty_pct str_of_nat_50
  by simp

lemma pct_150: "round_half_even (rnd64 (25 * rnd64 (of_int 150 / 100))) = 38" by code_simp
lemma pct_2_5: "round_half_even (rnd64 (25 * rnd64 (5 / 2 / 100))) = 1" by code_simp
lemma frac_neg_half: "round_half_even (rnd64 (25 * (- 1 / 2))) = - 12" by code_simp

lemma float_range_examples:
  "(5 / 2 :: rat) < 2 powi 1024" "- (2 powi 1000) \<le> (- 1 / 2 :: rat)"
proof -
  have "(1::rat) \<le> 2 powi 1000" using pow2_mono [of 0 1000] by simp
  then show "- (2 powi 1000) \<le> (- 1 / 2 :: rat)" by linarith
  have "(4::rat) \<le> 2 powi 1024" using pow2_mono [of 2 1024] by simp
  then show "(5 / 2 :: rat) < 2 powi 1024" by linarith
qed

text \<open>
  Claim C8. The workload 0 gives 0 days. A number greater than 1 is divided by 100
  before it is multiplied by 25 (a whole-number percentage), a number at most 1 is
  multiplied as it is (a fraction); the boundary 1 gives 25, as 100 and \<^verbatim>\<open>1.0\<close> do.
  Nothing is validated: a negative number and a percentage above 100 give results
  outside \<open>[0, 25]\<close>, 200 gives 50 and \<open>-20\<close> gives \<open>-500\<close>.
\<close>

theorem numeric_workload_regimes:
  "compute_vacation_total (PInt 0) = Inr 0
   \<and> (1 < n \<and> n < 2 ^ 53 \<longrightarrow>
        compute_vacation_total (PInt n)
          = Inr (round_half_even (rnd64 (25 * rnd64 (of_int n / 100)))))
   \<and> (1 < q \<and> q < 2 powi 1024 \<longrightarrow>
        compute_vacation_total (PFloat (Fin q))
          = Inr (round_half_even (rnd64 (25 * rnd64 (q / 100)))))
   \<and> (m \<le> 1 \<and> - (2 ^ 48) < m \<longrightarrow> compute_vacation_total (PInt m) = Inr (25 * m))
   \<and> (r \<le> 1 \<and> - (2 powi 1000) \<le> r \<longrightarrow>
        compute_vacation_total (PFloat (Fin r)) = Inr (round_half_even (rnd64 (25 * r))))
   \<and> compute_vacation_total (PInt 1) = Inr 25
   \<and> compute_vacation_total (PFloat (Fin 1)) = Inr 25
   \<and> compute_vacation_total (PInt 100) = Inr 25
   \<and> compute_vacation_total (PInt 200) = Inr 50
   \<and> compute_vacation_total (PStr ''200%'') = Inr 50
   \<and> compute_vacation_total (PInt (- 20)) = Inr (- 500)"
proof (intro conjI impI)
  assume "1 < n \<and> n < 2 ^ 53"
  then show "compute_vacation_total (PInt n)
               = Inr (round_half_even (rnd64 (25 * rnd64 (of_int n / 100))))"
    by (intro cvt_int_gt_one) simp_all
next
  assume "1 < q \<and> q < 2 powi 1024"
  then have "1 < q" and "q < 2 powi 1024" by blast+
  then show "compute_vacation_total (PFloat (Fin q))
               = Inr (round_half_even (rnd64 (25 * rnd64 (q / 100))))"
    by (rule cvt_float_gt_one)
next
  assume "m \<le> 1 \<and> - (2 ^ 48) < m"
  then show "compute_vacation_total (PInt m) = Inr (25 * m)"
    by (intro cvt_int_le_one) simp_all
next
  assume "r \<le> 1 \<and> - (2 powi 1000) \<le> r"
  then have "r \<le> 1" and "- (2 powi 1000) \<le> r" by blast+
  then show "compute_vacation_total (PFloat (Fin r)) = Inr (round_half_even (rnd64 (25 * r)))"
    by (rule cvt_float_le_one)
qed (rule cvt_int_0 cvt_int_1 cvt_float_1 cvt_int_100 cvt_int_200 cvt_str_200_pct cvt_int_neg)+

theorem numeric_workload_regimes_witness:
  "(1::int) < 150 \<and> (150::int) < 2 ^ 53 \<and> compute_vacation_total (PInt 150) = Inr 38
   \<and> (1::rat) < 5 / 2 \<and> (5 / 2 :: rat) < 2 powi 1024
   \<and> compute_vacation_total (PFloat (Fin (5 / 2))) = Inr 1
   \<and> (- 3 :: int) \<le> 1 \<and> - (2 ^ 48) < (- 3 :: int)
   \<and> compute_vacation_total (PInt (- 3)) = Inr (- 75)
   \<and> (- 1 / 2 :: rat) \<le> 1 \<and> - (2 powi 1000) \<le> (- 1 / 2 :: rat)
   \<and> compute_vacation_total (PFloat (Fin (- 1 / 2))) = Inr (- 12)"
proof -
  note T = numeric_workload_regimes [of 150 "5 / 2" "- 3" "- 1 / 2"]
  have a: "compute_vacation_total (PInt 150) = Inr 38"
    using T pct_150 by simp
  have b: "compute_vacation_total (PFloat (Fin (5 / 2))) = Inr 1"
    using T float_range_examples(1) pct_2_5 by simp
  have c: "compute_vacation_total (PInt (- 3)) = Inr (- 75)"
    using T by simp
  have d: "compute_vacation_total (PFloat (Fin (- 1 / 2))) = Inr (- 12)"
    using T float_range_examples(2) frac_neg_half by simp
  show ?thesis using a b c d float_range_examples by simp
qed

lemma str_of_nat_1234: "str_of_nat 1234 = ''1234''" by code_simp
lemma not_endswith_1234: "\<not> endswith ''1234'' ''%''" by code_simp

text \<open>
  Claim C10. A string that does not end with \<^verbatim>\<open>%\<close> is not taken as a percentage: the
  fraction is \<^verbatim>\<open>float\<close> of the string, whatever its size, so the decimal digits of \<open>n\<close>
  give \<open>25 * n\<close> days. \<^verbatim>\<open>"80"\<close> gives 2000, while \<^verbatim>\<open>"80%"\<close> and 80 give 20.
\<close>

theorem bare_number_string_is_fraction:
  "(\<not> endswith s ''%'' \<longrightarrow>
      workload_frac (PStr s) = float_of_str s
    \<and> compute_vacation_total (PStr s)
        = (case float_of_str s of Inl e \<Rightarrow> Inl e | Inr x \<Rightarrow> py_round (float_mul 25 x)))
   \<and> (25 * int n < 2 ^ 53 \<longrightarrow> compute_vacation_total (PStr (str_of_nat n)) = Inr (25 * int n))
   \<and> compute_vacation_total (PStr ''80'') = Inr 2000
   \<and> compute_vacation_total (PStr ''80%'') = Inr 20
   \<and> compute_vacation_total (PInt 80) = Inr 20"
proof (intro conjI impI)
  assume "\<not> endswith s ''%''"
  then show "workload_frac (PStr s) = float_of_str s"
    by (simp add: workload_frac_def)
  then show "compute_vacation_total (PStr s)
        = (case float_of_str s of Inl e \<Rightarrow> Inl e | Inr x \<Rightarrow> py_round (float_mul 25 x))"
    by (simp add: compute_vacation_total_def)
next
  assume "25 * int n < 2 ^ 53"
  then show "compute_vacation_total (PStr (str_of_nat n)) = Inr (25 * int n)"
    by (rule cvt_digits_str)
qed (rule cvt_str_80 cvt_str_80_pct cvt_int_80)+

theorem bare_number_string_is_fraction_witness:
  "\<not> endswith ''1234'' ''%''
   \<and> workload_frac (PStr ''1234'') = float_of_str ''1234''
   \<and> 25 * int 1234 < 2 ^ 53
   \<and> compute_vacation_total (PStr ''1234'') = Inr 30850"
proof -
  note T = bare_number_string_is_fraction [of "''1234''" 1234]
  have a: "workload_frac (PStr ''1234'') = float_of_str ''1234''"
    using T not_endswith_1234 by blast
  have n: "25 * int 1234 < 2 ^ 53" by simp
  with T have "compute_vacation_total (PStr (str_of_nat 1234)) = Inr (25 * int 1234)" by blast
  then have b: "compute_vacation_total (PStr ''1234'') = Inr 30850"
    by (simp add: str_of_nat_1234)
  show ?thesis using a b not_endswith_1234 by simp
qed

text \<open>
  Claim C7, as amended. Within one reading of the number the result is monotone: for
  finite numbers \<open>w1 \<le> w2\<close> that are both at most 1 (fractions) or both greater than 1
  (percentages), whenever both calls return, the result at \<open>w1\<close> is at most the result at
  \<open>w2\<close>; and both calls return when the magnitudes are at most \<open>2^1000\<close>.
\<close>

theorem monotone_within_regime:
  assumes "is_py_value v1" and "is_py_value v2"
      and "num_val v1 = Some w1" and "num_val v2 = Some w2"
      and "w1 \<le> w2" and "w2 \<le> 1 \<or> 1 < w1"
  shows "(\<forall>a b. compute_vacation_total v1 = Inr a \<and> compute_vacation_total v2 = Inr b \<longrightarrow> a \<le> b)
       \<and> (\<bar>w1\<bar> \<le> 2 powi 1000 \<and> \<bar>w2\<bar> \<le> 2 powi 1000 \<longrightarrow>
            (\<exists>a b. compute_vacation_total v1 = Inr a \<and> compute_vacation_total v2 = Inr b \<and> a \<le> b))"
proof -
  have m: "a \<le> b" if "compute_vacation_total v1 = Inr a" and "compute_vacation_total v2 = Inr b"
    for a b
    using cvt_numeric_Inr [OF assms(1,3) that(1)] cvt_numeric_Inr [OF assms(2,4) that(2)]
      days_mono [OF assms(5,6)] by simp
  have "\<exists>a b. compute_vacation_total v1 = Inr a \<and> compute_vacation_total v2 = Inr b \<and> a \<le> b"
    if "\<bar>w1\<bar> \<le> 2 powi 1000" and "\<bar>w2\<bar> \<le> 2 powi 1000"
  proof -
    from cvt_numeric_bounded [OF assms(1,3) that(1)] obtain a
      where a: "compute_vacation_total v1 = Inr a" ..
    from cvt_numeric_bounded [OF assms(2,4) that(2)] obtain b
      where b: "compute_vacation_total v2 = Inr b" ..
    from m [OF a b] a b show ?thesis by blast
  qed
  with m show ?thesis by blast
qed

lemma quarter_is_double: "is_py_value (PFloat (Fin (1 / 4)))"
  by code_simp

lemma small_magnitudes: "\<bar>1 / 4 :: rat\<bar> \<le> 2 powi 1000" "\<bar>1 :: rat\<bar> \<le> 2 powi 1000"
  using pow2_mono [of 0 1000] by simp_all

theorem monotone_within_regime_witness:
  "is_py_value (PFloat (Fin (1 / 4))) \<and> is_py_value (PInt 1)
   \<and> num_val (PFloat (Fin (1 / 4))) = Some (1 / 4) \<and> num_val (PInt 1) = Some 1
   \<and> (1 / 4 :: rat) \<le> 1 \<and> \<bar>1 / 4 :: rat\<bar> \<le> 2 powi 1000 \<and> \<bar>1 :: rat\<bar> \<le> 2 powi 1000
   \<and> (\<exists>a b. compute_vacation_total (PFloat (Fin (1 / 4))) = Inr a
          \<and> compute_vacation_total (PInt 1) = Inr b \<and> a \<le> b)"
proof -
  have h: "is_py_value (PInt 1)" "num_val (PFloat (Fin (1 / 4))) = Some (1 / 4)"
    "num_val (PInt 1) = Some 1" "(1 / 4 :: rat) \<le> 1" "(1 :: rat) \<le> 1 \<or> 1 < (1 / 4 :: rat)"
    by simp_all
  note T = monotone_within_regime [OF quarter_is_double h]
  from T small_magnitudes
  have "\<exists>a b. compute_vacation_total (PFloat (Fin (1 / 4))) = Inr a
          \<and> compute_vacation_total (PInt 1) = Inr b \<and> a \<le> b"
    by blast
  with quarter_is_double h small_magnitudes show ?thesis by blast
qed

text \<open>
  Claim C7, as stated, fails: 1 is read as a fraction and gives 25 days, 2 is read as a
  percentage and gives 0 days, so the result decreases from 1 to 2; and the float
  infinity, which is a number, gives no result at all.
\<close>

theorem not_monotone_across_regimes:
  "(1 :: int) \<le> 2
   \<and> compute_vacation_total (PInt 1) = Inr 25
   \<and> compute_vacation_total (PInt 2) = Inr 0
   \<and> \<not> (25 :: int) \<le> 0
   \<and> compute_vacation_total (PFloat PInf) = Inl OverflowError"
  using cvt_int_1 cvt_int_2 cvt_float_inf by simp

lemma float_of_str_Fin:
  assumes "float_of_str s = Inr (Fin q)"
  shows "\<bar>q\<bar> < 2 powi 1024"
proof -
  from assms obtain r where "to_double r = Fin q"
    unfolding float_of_str_def Let_def
    by (auto split: if_splits option.splits)
  then show ?thesis by (rule to_double_range)
qed

lemma py_float_Fin:
  assumes "is_py_value v" and "py_float v = Inr (Fin q)"
  shows "\<bar>q\<bar> < 2 powi 1024"
proof (cases v)
  case (PStr s)
  with assms(2) have "float_of_str s = Inr (Fin q)" by simp
  then show ?thesis by (rule float_of_str_Fin)
next
  case (PInt n)
  with assms(2) have "to_double (of_int n) = Fin q"
    by (auto simp: float_of_int_def split: pyfloat.splits)
  then show ?thesis by (rule to_double_range)
next
  case (PFloat y)
  with assms have "to_double q = Fin q" by (simp add: is_double_def)
  then show ?thesis by (rule to_double_range)
next
  case PNone
  with assms(2) show ?thesis by simp
qed

lemma is_py_value_float_arg: "is_py_value v \<Longrightarrow> is_py_value (float_arg v)"
  by (cases v) (simp_all add: float_arg_def)

lemma workload_frac_eq:
  "workload_frac v =
     (if is_pct_str v \<or> is_num_gt_one v
      then map_sum id (\<lambda>x. float_div x 100) (py_float (float_arg v))
      else py_float (float_arg v))"
  by (simp add: workload_frac_def float_arg_def)

lemma cvt_not_finite:
  assumes "py_float (float_arg v) = Inr x" and "x = NaN \<or> x = PInf \<or> x = NInf"
  shows "compute_vacation_total v = py_round x"
proof -
  have "float_div x 100 = x" using assms(2) by auto
  moreover have "float_mul 25 x = x" using assms(2) by auto
  ultimately show ?thesis
    by (simp add: compute_vacation_total_def workload_frac_eq assms(1))
qed

lemma cvt_finite_pct:
  assumes "is_py_value v" and "py_float (float_arg v) = Inr (Fin q)"
      and "is_pct_str v \<or> is_num_gt_one v"
  shows "compute_vacation_total v = Inr (round_half_even (rnd64 (25 * rnd64 (q / 100))))"
proof -
  have "\<bar>q\<bar> < 2 powi 1024"
    using is_py_value_float_arg [OF assms(1)] assms(2) by (rule py_float_Fin)
  from round_pct [OF this] show ?thesis
    using assms(3) by (simp add: compute_vacation_total_def workload_frac_eq assms(2))
qed

lemma cvt_finite_frac:
  assumes "py_float (float_arg v) = Inr (Fin q)" and "\<not> (is_pct_str v \<or> is_num_gt_one v)"
  shows "compute_vacation_total v = py_round (to_double (25 * q))"
  using assms(2) by (simp add: compute_vacation_total_def workload_frac_eq assms(1))

lemma cvt_str_0_8: "compute_vacation_total (PStr ''0.8'') = Inr 20" by code_simp
lemma cvt_str_abc_pct: "compute_vacation_total (PStr ''abc%'') = Inl ValueError" by code_simp
lemma float_arg_abc_pct: "py_float (float_arg (PStr ''abc%'')) = Inl ValueError" by code_simp
lemma float_arg_75_pct: "py_float (float_arg (PStr ''75%'')) = Inr (Fin 75)" by code_simp
lemma is_pct_75: "is_pct_str (PStr ''75%'')" by code_simp
lemma days_75_pct: "round_half_even (rnd64 (25 * rnd64 (3 / 4))) = 19" by code_simp

text \<open>
  Claim C5, as amended. \<open>compute_vacation_total\<close> raises exactly in these cases:
  \<^verbatim>\<open>float\<close> raises on the argument (on the text without the \<^verbatim>\<open>%\<close> signs at its ends, when
  the argument is a string that ends with one), and the error is that of \<^verbatim>\<open>float\<close>; the
  number is NaN (\<^verbatim>\<open>ValueError\<close> of \<^verbatim>\<open>round\<close>) or an infinity (\<^verbatim>\<open>OverflowError\<close>); or the
  argument is read as a fraction and 25 times it is beyond the floats
  (\<^verbatim>\<open>OverflowError\<close>). In every other case it returns an integer: always for a
  string that ends with \<^verbatim>\<open>%\<close> and holds a finite float literal and for a finite number
  above 1, and for any other finite literal or number when 25 times it is a float.
\<close>

theorem cvt_failure_cases:
  assumes "is_py_value v"
  shows "compute_vacation_total v =
           (case py_float (float_arg v) of
              Inl e \<Rightarrow> Inl e
            | Inr NaN \<Rightarrow> Inl ValueError
            | Inr PInf \<Rightarrow> Inl OverflowError
            | Inr NInf \<Rightarrow> Inl OverflowError
            | Inr (Fin q) \<Rightarrow>
                if is_pct_str v \<or> is_num_gt_one v
                then Inr (round_half_even (rnd64 (25 * rnd64 (q / 100))))
                else if \<bar>rnd64 (25 * q)\<bar> < 2 powi 1024
                then Inr (round_half_even (rnd64 (25 * q)))
                else Inl OverflowError)"
proof (cases "py_float (float_arg v)")
  case (Inl e)
  then show ?thesis by (simp add: compute_vacation_total_def workload_frac_eq)
next
  case (Inr x)
  show ?thesis
  proof (cases x)
    case (Fin q)
    with Inr have f: "py_float (float_arg v) = Inr (Fin q)" by simp
    show ?thesis
    proof (cases "is_pct_str v \<or> is_num_gt_one v")
      case True
      from cvt_finite_pct [OF assms f True] show ?thesis
        by (simp only: f True sum.case pyfloat.case if_True)
    next
      case False
      from cvt_finite_frac [OF f False] show ?thesis
        by (simp only: f False sum.case pyfloat.case if_False py_round_to_double)
    qed
  next
    case PInf
    with Inr cvt_not_finite [of v x] show ?thesis by simp
  next
    case NInf
    with Inr cvt_not_finite [of v x] show ?thesis by simp
  next
    case NaN
    with Inr cvt_not_finite [of v x] show ?thesis by simp
  qed
qed

theorem cvt_failure_cases_witness:
  "is_py_value (PStr ''abc%'') \<and> compute_vacation_total (PStr ''abc%'') = Inl ValueError
   \<and> is_py_value PNone \<and> compute_vacation_total PNone = Inl TypeError
   \<and> is_py_value (PStr ''75%'') \<and> compute_vacation_total (PStr ''75%'') = Inr 19"
proof -
  have a: "compute_vacation_total (PStr ''abc%'') = Inl ValueError"
    using cvt_failure_cases [of "PStr ''abc%''"] by (simp add: float_arg_abc_pct)
  have b: "compute_vacation_total PNone = Inl TypeError"
    using cvt_failure_cases [of PNone] by (simp add: float_arg_def)
  have c: "compute_vacation_total (PStr ''75%'') = Inr 19"
    using cvt_failure_cases [of "PStr ''75%''"] is_pct_75
    by (simp add: float_arg_75_pct days_75_pct)
  from a b c show ?thesis by simp
qed

text \<open>
  Claim C5, as stated, fails in both directions: the string \<^verbatim>\<open>0.8\<close> is neither a
  percentage string nor a number and gives 20 days without an error; the float infinity
  is a number and the call raises; \<^verbatim>\<open>abc%\<close> ends with the percent sign and the call
  raises.
\<close>

theorem format_error_cases_differ:
  "\<not> is_pct_str (PStr ''0.8'') \<and> num_val (PStr ''0.8'') = None
   \<and> compute_vacation_total (PStr ''0.8'') = Inr 20
   \<and> compute_vacation_total (PFloat PInf) = Inl OverflowError
   \<and> is_pct_str (PStr ''abc%'')
   \<and> compute_vacation_total (PStr ''abc%'') = Inl ValueError"
  using cvt_str_0_8 cvt_float_inf cvt_str_abc_pct by (simp add: endswith_def)

end
